theory Spec2Isabelle
  imports Main "HOL-Library.Word"
begin

unbundle bit_operations_syntax

section \<open>PictureStorage: the RGB 24-bit streaming codec\<close>

text \<open>
  A shallow embedding of \<^verbatim>\<open>src/PictureStorage.py\<close>: \<^verbatim>\<open>create_header_pixels\<close>, the image
  loop of \<^verbatim>\<open>encrypt_file\<close> and \<^verbatim>\<open>decrypt_single_file\<close>.

  What is modelled and how.
  \<^item> The input file is its contents, a list of bytes; \<^verbatim>\<open>os.path.getsize\<close> is its length and
    the open handle \<^verbatim>\<open>f\<close> is the list of bytes not yet read, threaded through the image loop.
  \<^item> Python's integers are unbounded and never negative in this code, so they are \<open>nat\<close>.
    Each subtraction of the source is on operands where the left one is at least the right
    one as long as the per-image bound is at least 5 (it is 10000 * 10000).
  \<^item> A pixel in the encoder's lists is a Python list \<^verbatim>\<open>[r, g, b]\<close> of integers, here a triple
    of \<open>nat\<close>. A cell of a NumPy array of dtype \<^verbatim>\<open>uint8\<close> is a triple of 8-bit words; storing
    into the array converts with \<open>of_nat\<close> (every value the encoder stores is below 256).
  \<^item> An image is the H x W x 3 array that the PNG holds: its height, its width and the cell
    at each row and column. The PNG container is taken as lossless, and the files of a
    series as the list of their arrays in file-name order.
  \<^item> Channel values read back by the decoder enter its arithmetic as unbounded integers
    (\<open>unat\<close>), as the header arithmetic of the source intends; the width of NumPy's scalar
    types is not part of the model.
  \<^item> \<^verbatim>\<open>math.ceil(a / b)\<close> and \<^verbatim>\<open>math.ceil(np.sqrt(n))\<close> are the exact ceilings (the floating
    point results are exact on the sizes a file system can hold).
  \<^item> The bound of pixels per image, a local constant of \<^verbatim>\<open>encrypt_file\<close>, is the parameter
    \<open>M\<close> of the functions of the image loop; \<open>encrypt_file\<close> fixes it at 10000 * 10000.
  \<^item> Console input, progress output, file-name matching and directory scanning are left
    out: \<^verbatim>\<open>encrypt_file\<close> is taken after the file is found and the user has confirmed. A
    raised exception is a value of type \<open>error\<close>.
\<close>

subsection \<open>Data\<close>

type_synonym byte = "8 word"

type_synonym py_pixel = "nat \<times> nat \<times> nat"

type_synonym pixel = "byte \<times> byte \<times> byte"

record image =
  height :: nat
  width :: nat
  cells :: "nat \<Rightarrow> nat \<Rightarrow> pixel"

datatype error = FileNotFoundError | IndexError | ZeroDivisionError

record header_record =
  complete_pixels :: nat
  extra_bits :: nat

subsection \<open>create_header_pixels\<close>

text \<open>The loop \<^verbatim>\<open>for _ in range(12): length_bytes.append(temp & 0xFF); temp >>= 8\<close>.\<close>

fun length_bytes_loop :: "nat \<Rightarrow> nat \<Rightarrow> nat list \<Rightarrow> nat list" where
  "length_bytes_loop 0 temp length_bytes = length_bytes"
| "length_bytes_loop (Suc k) temp length_bytes =
     length_bytes_loop k (drop_bit 8 temp) (length_bytes @ [temp AND 0xFF])"

definition create_header_pixels :: "nat \<Rightarrow> nat \<Rightarrow> py_pixel list" where
  "create_header_pixels cp eb =
     (let length_bytes = rev (length_bytes_loop 12 cp [])
      in map (\<lambda>i. (length_bytes ! (i * 3), length_bytes ! (i * 3 + 1), length_bytes ! (i * 3 + 2)))
           [0..<4]
         @ [(0, 0, eb)])"

subsection \<open>encrypt_file\<close>

definition max_pixels_per_image :: nat where
  "max_pixels_per_image = 10000 * 10000"

text \<open>\<^verbatim>\<open>math.ceil(extra_bits / 8)\<close>\<close>

definition ceil8 :: "nat \<Rightarrow> nat" where
  "ceil8 e = (e + 7) div 8"

text \<open>\<^verbatim>\<open>math.ceil(a / b)\<close> for a positive \<open>b\<close>.\<close>

definition ceil_div :: "nat \<Rightarrow> nat \<Rightarrow> nat" where
  "ceil_div a b = (a + b - 1) div b"

text \<open>Step 2 of \<^verbatim>\<open>encrypt_file\<close>: the metadata computed from the file size alone.\<close>

definition calc_header :: "nat \<Rightarrow> header_record" where
  "calc_header file_size =
     (let total_bits = file_size * 8
      in \<lparr>complete_pixels = total_bits div 24, extra_bits = total_bits mod 24\<rparr>)"

definition data_pixels :: "header_record \<Rightarrow> nat" where
  "data_pixels h = complete_pixels h + (if extra_bits h > 0 then 1 else 0)"

definition total_pixels_needed :: "header_record \<Rightarrow> nat" where
  "total_pixels_needed h = 5 + data_pixels h"

definition num_images :: "nat \<Rightarrow> header_record \<Rightarrow> nat" where
  "num_images M h = ceil_div (total_pixels_needed h) M"

text \<open>
  The read loop \<^verbatim>\<open>while len(chunk_bytes) < bytes_to_read\<close>: \<^verbatim>\<open>f.read(read_size)\<close> hands out
  the next \<open>read_size\<close> bytes of the file, fewer at its end; an empty read breaks the loop.
  The result is the chunk and the rest of the file.
\<close>

function read_loop :: "nat \<Rightarrow> nat \<Rightarrow> byte list \<Rightarrow> byte list \<Rightarrow> byte list \<times> byte list" where
  "read_loop chunk_size bytes_to_read chunk_bytes f =
     (if length chunk_bytes < bytes_to_read
      then (if take (min chunk_size (bytes_to_read - length chunk_bytes)) f = []
            then (chunk_bytes, f)
            else read_loop chunk_size bytes_to_read
                   (chunk_bytes @ take (min chunk_size (bytes_to_read - length chunk_bytes)) f)
                   (drop (min chunk_size (bytes_to_read - length chunk_bytes)) f))
      else (chunk_bytes, f))"
  by pat_completeness auto
termination
proof (relation "measure (\<lambda>(cs, n, chunk, f). n - length chunk)")
  show "wf (measure (\<lambda>(cs, n, chunk, f). n - length chunk))"
    by simp
next
  fix chunk_size bytes_to_read :: nat and chunk_bytes f :: "byte list"
  assume less: "length chunk_bytes < bytes_to_read"
    and data: "take (min chunk_size (bytes_to_read - length chunk_bytes)) f \<noteq> []"
  from data have "0 < length (take (min chunk_size (bytes_to_read - length chunk_bytes)) f)"
    by simp
  with less show "((chunk_size, bytes_to_read,
        chunk_bytes @ take (min chunk_size (bytes_to_read - length chunk_bytes)) f,
        drop (min chunk_size (bytes_to_read - length chunk_bytes)) f),
       chunk_size, bytes_to_read, chunk_bytes, f)
      \<in> measure (\<lambda>(cs, n, chunk, f). n - length chunk)"
    by (cases f) (auto simp: min_def)
qed

declare read_loop.simps [simp del]

text \<open>
  The loop \<^verbatim>\<open>for i in range(0, len(chunk_bytes), 3)\<close>: a complete pixel while three bytes
  are left, then a partial pixel of two bytes or of one, padded with 0.
\<close>

fun bytes_to_pixels :: "byte list \<Rightarrow> py_pixel list" where
  "bytes_to_pixels (r # g # b # rest) = (unat r, unat g, unat b) # bytes_to_pixels rest"
| "bytes_to_pixels [r, g] = [(unat r, unat g, 0)]"
| "bytes_to_pixels [r] = [(unat r, 0, 0)]"
| "bytes_to_pixels [] = []"

text \<open>
  One iteration of \<^verbatim>\<open>for image_num in range(num_images)\<close> up to the pixel list of the
  image: the list \<^verbatim>\<open>image_pixels\<close> and the rest of the file.
\<close>

definition encode_image ::
  "nat \<Rightarrow> header_record \<Rightarrow> nat \<Rightarrow> byte list \<Rightarrow> py_pixel list \<times> byte list" where
  "encode_image M h image_num f =
     (let T = total_pixels_needed h;
          pixels_in_image =
            (if image_num = 0 then min M T
             else min M (T - (5 + (image_num - 1) * M + (min M T - 5))));
          data_pixels_in_image =
            (if image_num = 0 then pixels_in_image - 5 else pixels_in_image);
          bytes_to_read =
            (if image_num = num_images M h - 1 \<and> extra_bits h > 0
             then (data_pixels_in_image - 1) * 3 + ceil8 (extra_bits h)
             else data_pixels_in_image * 3);
          chunk_size = min bytes_to_read (10 * 1024 * 1024);
          (chunk_bytes, f') = read_loop chunk_size bytes_to_read [] f
      in ((if image_num = 0
           then create_header_pixels (complete_pixels h) (extra_bits h) else [])
          @ bytes_to_pixels chunk_bytes, f'))"

fun encode_images ::
  "nat \<Rightarrow> header_record \<Rightarrow> nat list \<Rightarrow> byte list \<Rightarrow> py_pixel list list" where
  "encode_images M h [] f = []"
| "encode_images M h (image_num # rest) f =
     (case encode_image M h image_num f of
        (image_pixels, f') \<Rightarrow> image_pixels # encode_images M h rest f')"

text \<open>The pixel list of every image of the series, for a per-image bound \<open>M\<close>.\<close>

definition image_pixel_lists :: "nat \<Rightarrow> byte list \<Rightarrow> py_pixel list list" where
  "image_pixel_lists M file =
     (let h = calc_header (length file)
      in encode_images M h [0..<num_images M h] file)"

subsection \<open>The raster layout of one image\<close>

text \<open>\<^verbatim>\<open>math.ceil(np.sqrt(n))\<close>: the least \<open>s\<close> with \<open>n \<le> s * s\<close>.\<close>

definition ceil_sqrt :: "nat \<Rightarrow> nat" where
  "ceil_sqrt n = (case find (\<lambda>s. n \<le> s * s) [0..<Suc n] of Some s \<Rightarrow> s | None \<Rightarrow> n)"

definition to_u8 :: "py_pixel \<Rightarrow> pixel" where
  "to_u8 p = (case p of (r, g, b) \<Rightarrow> (of_nat r, of_nat g, of_nat b))"

definition white :: pixel where
  "white = (255, 255, 255)"

text \<open>\<^verbatim>\<open>np.full((size, size, 3), 255, dtype=np.uint8)\<close>\<close>

definition np_full :: "nat \<Rightarrow> image" where
  "np_full side = \<lparr>height = side, width = side, cells = (\<lambda>row col. white)\<rparr>"

text \<open>\<^verbatim>\<open>img_array[row, col] = pixel\<close>; NumPy raises IndexError outside the array.\<close>

definition set_cell :: "image \<Rightarrow> nat \<Rightarrow> nat \<Rightarrow> py_pixel \<Rightarrow> error + image" where
  "set_cell img row col p =
     (if row < height img \<and> col < width img
      then Inr (img\<lparr>cells := (cells img)(row := (cells img row)(col := to_u8 p))\<rparr>)
      else Inl IndexError)"

text \<open>
  The loop \<^verbatim>\<open>for idx, pixel in enumerate(image_pixels)\<close>; \<open>side\<close> is the source's \<^verbatim>\<open>size\<close>.
\<close>

fun fill_loop :: "nat \<Rightarrow> (nat \<times> py_pixel) list \<Rightarrow> image \<Rightarrow> error + image" where
  "fill_loop side [] img = Inr img"
| "fill_loop side ((idx, p) # rest) img =
     (if side = 0 then Inl ZeroDivisionError
      else (case set_cell img (idx div side) (idx mod side) p of
              Inl e \<Rightarrow> Inl e
            | Inr img' \<Rightarrow> fill_loop side rest img'))"

definition raster_layout :: "py_pixel list \<Rightarrow> error + image" where
  "raster_layout image_pixels =
     (let side = ceil_sqrt (length image_pixels)
      in fill_loop side (enumerate 0 image_pixels) (np_full side))"

fun layout_all :: "py_pixel list list \<Rightarrow> error + image list" where
  "layout_all [] = Inr []"
| "layout_all (ps # rest) =
     (case raster_layout ps of
        Inl e \<Rightarrow> Inl e
      | Inr img \<Rightarrow> (case layout_all rest of Inl e \<Rightarrow> Inl e | Inr imgs \<Rightarrow> Inr (img # imgs)))"

text \<open>
  The series \<^verbatim>\<open>encrypt_file\<close> saves for a file: every image's pixel list laid out. The
  layout of an image uses nothing but its own pixel list.
\<close>

definition encrypt_images :: "nat \<Rightarrow> byte list \<Rightarrow> error + image list" where
  "encrypt_images M file = layout_all (image_pixel_lists M file)"

definition encrypt_file :: "byte list \<Rightarrow> error + image list" where
  "encrypt_file file = encrypt_images max_pixels_per_image file"

subsection \<open>decrypt_single_file\<close>

text \<open>
  Reading header pixel \<open>i\<close> of the first image: \<^verbatim>\<open>row = i // shape[1]\<close>, \<^verbatim>\<open>col = i % shape[1]\<close>,
  \<^verbatim>\<open>first_array[row, col, :3]\<close>.
\<close>

definition read_header_pixel :: "image \<Rightarrow> nat \<Rightarrow> error + pixel" where
  "read_header_pixel first_array i =
     (if width first_array = 0 then Inl ZeroDivisionError
      else if i div width first_array < height first_array
      then Inr (cells first_array (i div width first_array) (i mod width first_array))
      else Inl IndexError)"

fun read_header_pixels :: "image \<Rightarrow> nat list \<Rightarrow> error + pixel list" where
  "read_header_pixels first_array [] = Inr []"
| "read_header_pixels first_array (i # rest) =
     (case read_header_pixel first_array i of
        Inl e \<Rightarrow> Inl e
      | Inr p \<Rightarrow> (case read_header_pixels first_array rest of
                   Inl e \<Rightarrow> Inl e
                 | Inr ps \<Rightarrow> Inr (p # ps)))"

definition pixel_bytes :: "pixel \<Rightarrow> byte list" where
  "pixel_bytes p = (case p of (r, g, b) \<Rightarrow> [r, g, b])"

text \<open>\<^verbatim>\<open>for byte_val in length_bytes: complete_pixels = (complete_pixels << 8) | byte_val\<close>\<close>

definition decode_length :: "byte list \<Rightarrow> nat" where
  "decode_length length_bytes = foldl (\<lambda>cp byte_val. push_bit 8 cp OR unat byte_val) 0 length_bytes"

definition parse_header :: "image \<Rightarrow> error + header_record" where
  "parse_header first_array =
     (case read_header_pixels first_array [0..<5] of
        Inl e \<Rightarrow> Inl e
      | Inr header_pixels \<Rightarrow>
          Inr \<lparr>complete_pixels = decode_length (concat (map pixel_bytes (take 4 header_pixels))),
               extra_bits = unat (snd (snd (header_pixels ! 4)))\<rparr>)"

definition bytes_target :: "header_record \<Rightarrow> nat" where
  "bytes_target h = complete_pixels h * 3"

definition total_bytes :: "header_record \<Rightarrow> nat" where
  "total_bytes h =
     complete_pixels h * 3 + (if extra_bits h > 0 then ceil8 (extra_bits h) else 0)"

record dec_state =
  bytes_written :: nat
  out_file :: "byte list"

text \<open>\<^verbatim>\<open>out_file.write(bytes([v])); bytes_written += 1\<close>\<close>

definition write_byte :: "byte \<Rightarrow> dec_state \<Rightarrow> dec_state" where
  "write_byte v st = \<lparr>bytes_written = bytes_written st + 1, out_file = out_file st @ [v]\<rparr>"

text \<open>The three guarded writes of a complete pixel.\<close>

definition write_pixel :: "header_record \<Rightarrow> pixel \<Rightarrow> dec_state \<Rightarrow> dec_state" where
  "write_pixel h p st =
     (case p of (r, g, b) \<Rightarrow>
        (let st1 = (if bytes_written st < bytes_target h then write_byte r st else st);
             st2 = (if bytes_written st1 < bytes_target h then write_byte g st1 else st1)
         in (if bytes_written st2 < bytes_target h then write_byte b st2 else st2)))"

text \<open>The three guarded writes of the residual pixel.\<close>

definition write_extra :: "header_record \<Rightarrow> pixel \<Rightarrow> dec_state \<Rightarrow> dec_state" where
  "write_extra h p st =
     (case p of (r, g, b) \<Rightarrow>
        (let extra_bytes_needed = ceil8 (extra_bits h);
             st1 = (if bytes_written st < total_bytes h then write_byte r st else st);
             st2 = (if bytes_written st1 < total_bytes h \<and> extra_bytes_needed > 1
                    then write_byte g st1 else st1)
         in (if bytes_written st2 < total_bytes h \<and> extra_bytes_needed > 2
             then write_byte b st2 else st2)))"

text \<open>
  \<^verbatim>\<open>for col in range(width)\<close>: \<^verbatim>\<open>continue\<close> below \<open>start_pixel\<close>; once the complete pixels
  are written, the residual pixel if one is due, and \<^verbatim>\<open>break\<close>.
\<close>

fun cols_loop ::
  "header_record \<Rightarrow> image \<Rightarrow> nat \<Rightarrow> nat \<Rightarrow> nat list \<Rightarrow> dec_state \<Rightarrow> dec_state" where
  "cols_loop h img start_pixel row [] st = st"
| "cols_loop h img start_pixel row (col # rest) st =
     (if row * width img + col < start_pixel then cols_loop h img start_pixel row rest st
      else if bytes_written st \<ge> bytes_target h
      then (if extra_bits h > 0 \<and> bytes_written st < total_bytes h
            then write_extra h (cells img row col) st else st)
      else cols_loop h img start_pixel row rest (write_pixel h (cells img row col) st))"

text \<open>\<^verbatim>\<open>for row in range(height)\<close>, left when \<^verbatim>\<open>bytes_written >= total_bytes\<close>.\<close>

fun rows_loop ::
  "header_record \<Rightarrow> image \<Rightarrow> nat \<Rightarrow> nat list \<Rightarrow> dec_state \<Rightarrow> dec_state" where
  "rows_loop h img start_pixel [] st = st"
| "rows_loop h img start_pixel (row # rest) st =
     (let st' = cols_loop h img start_pixel row [0..<width img] st
      in if bytes_written st' \<ge> total_bytes h then st'
         else rows_loop h img start_pixel rest st')"

text \<open>\<^verbatim>\<open>for idx, image_path in enumerate(matching_files, 1)\<close>\<close>

fun images_loop ::
  "header_record \<Rightarrow> nat \<Rightarrow> image list \<Rightarrow> dec_state \<Rightarrow> dec_state" where
  "images_loop h idx [] st = st"
| "images_loop h idx (img_array # rest) st =
     (let st' = rows_loop h img_array (if idx = 1 then 5 else 0) [0..<height img_array] st
      in if bytes_written st' \<ge> total_bytes h then st'
         else images_loop h (idx + 1) rest st')"

text \<open>
  \<^verbatim>\<open>decrypt_single_file\<close> on the arrays of the series and the destination file (\<open>None\<close> when
  it does not exist): what is returned or raised, and the destination file afterwards.
\<close>

definition decrypt_single_file ::
  "image list \<Rightarrow> byte list option \<Rightarrow> (error + bool) \<times> byte list option" where
  "decrypt_single_file matching_files dest =
     (case matching_files of
        [] \<Rightarrow> (Inl FileNotFoundError, dest)
      | first_array # _ \<Rightarrow>
          (case parse_header first_array of
             Inl e \<Rightarrow> (Inl e, dest)
           | Inr h \<Rightarrow>
               (case dest of
                  Some old \<Rightarrow> (Inr False, dest)
                | None \<Rightarrow>
                    (Inr True,
                     Some (out_file (images_loop h 1 matching_files
                                       \<lparr>bytes_written = 0, out_file = []\<rparr>))))))"

subsection \<open>Vocabulary of the properties\<close>

text \<open>Byte \<open>j\<close> of a number, counted from the least significant one.\<close>

definition hbyte :: "nat \<Rightarrow> nat \<Rightarrow> nat" where
  "hbyte cp j = (cp div 256 ^ j) mod 256"

text \<open>The cell at raster position \<open>i\<close> of an image, in row-major order.\<close>

definition raster_cell :: "image \<Rightarrow> nat \<Rightarrow> pixel" where
  "raster_cell img i = cells img (i div width img) (i mod width img)"

text \<open>The five header positions lie inside the first image: the header read raises nothing.\<close>

definition header_readable :: "image \<Rightarrow> bool" where
  "header_readable img \<longleftrightarrow> 0 < width img \<and> 4 div width img < height img"

text \<open>The pixels of a whole file in order: the five header pixels, then the payload pixels.\<close>

definition all_pixels :: "byte list \<Rightarrow> py_pixel list" where
  "all_pixels file =
     (let h = calc_header (length file)
      in create_header_pixels (complete_pixels h) (extra_bits h) @ bytes_to_pixels file)"

text \<open>
  The decoder as a machine fed one payload pixel after another: one step is the body of the
  column loop on a position that is not skipped, and the \<^verbatim>\<open>break\<close> ends the feeding.
\<close>

fun feed :: "header_record \<Rightarrow> pixel list \<Rightarrow> dec_state \<Rightarrow> dec_state" where
  "feed h [] st = st"
| "feed h (p # ps) st =
     (if bytes_written st \<ge> bytes_target h
      then (if extra_bits h > 0 \<and> bytes_written st < total_bytes h
            then write_extra h p st else st)
      else feed h ps (write_pixel h p st))"

text \<open>
  The cells of one row that the column loop does not skip, in order.
\<close>

definition row_payload :: "image \<Rightarrow> nat \<Rightarrow> nat \<Rightarrow> pixel list" where
  "row_payload img start_pixel row =
     map (cells img row) (filter (\<lambda>col. \<not> row * width img + col < start_pixel) [0..<width img])"

text \<open>
  The cells of one image that the loops do not skip, in raster order.
\<close>

definition image_payload :: "image \<Rightarrow> nat \<Rightarrow> pixel list" where
  "image_payload img start_pixel = concat (map (row_payload img start_pixel) [0..<height img])"

text \<open>
  The payload cells of a series: image \<open>idx = 1\<close> without its five header positions, then
  every cell of the later images.
\<close>

fun series_payload :: "nat \<Rightarrow> image list \<Rightarrow> pixel list" where
  "series_payload idx [] = []"
| "series_payload idx (img # rest) =
     image_payload img (if idx = 1 then 5 else 0) @ series_payload (idx + 1) rest"

text \<open>
  Between two pixels the decoder has either not passed the complete pixels or has written
  everything.
\<close>

definition settled :: "header_record \<Rightarrow> dec_state \<Rightarrow> bool" where
  "settled h st \<longleftrightarrow> bytes_written st \<le> bytes_target h \<or> total_bytes h \<le> bytes_written st"

text \<open>
  All cells of an image in raster order.
\<close>

definition raster :: "image \<Rightarrow> pixel list" where
  "raster img = map (raster_cell img) [0..<height img * width img]"

text \<open>
  An image holds a pixel list: it is the square grid of the layout and its first cells, in
  raster order, are the pixels; the cells beyond them are free.
\<close>

definition holds_pixels :: "py_pixel list \<Rightarrow> image \<Rightarrow> bool" where
  "holds_pixels ps img \<longleftrightarrow>
     height img = ceil_sqrt (length ps) \<and> width img = ceil_sqrt (length ps)
     \<and> (\<forall>i<length ps. raster_cell img i = to_u8 (ps ! i))"





section \<open>Properties\<close>

subsection \<open>The header\<close>

lemma and_255_nat: "(x::nat) AND 0xFF = x mod 256"
proof -
  have "x AND mask 8 = take_bit 8 x" by (simp add: take_bit_eq_mask)
  then show ?thesis by (simp add: take_bit_eq_mod mask_eq_exp_minus_1)
qed

lemma or_shift_byte: "push_bit 8 (cp::nat) OR unat (b::byte) = cp * 256 + unat b"
proof -
  have "unat b < 2 ^ 8" using unsigned_less[of b] by simp
  then have tb: "take_bit 8 (unat b) = unat b" by (simp add: take_bit_nat_eq_self)
  have "push_bit 8 cp AND unat b = 0"
    by (rule bit_eqI) (use tb in \<open>auto simp: bit_simps dest: bit_imp_le_length\<close>)
  then have "push_bit 8 cp + unat b = push_bit 8 cp OR unat b"
    by (rule disjunctive_add_eq_or)
  then show ?thesis by (simp add: push_bit_eq_mult)
qed

lemma length_bytes_loop_eq:
  "length_bytes_loop k temp acc = acc @ map (\<lambda>j. (temp div 256 ^ j) mod 256) [0..<k]"
proof (induction k arbitrary: temp acc)
  case 0
  then show ?case by simp
next
  case (Suc k)
  have "map (\<lambda>j. (temp div 256 ^ j) mod 256) [0..<Suc k]
      = (temp mod 256) # map (\<lambda>j. (temp div 256 div 256 ^ j) mod 256) [0..<k]"
  proof -
    have "[0..<Suc k] = 0 # map Suc [0..<k]"
      by (simp add: upt_conv_Cons map_Suc_upt del: upt_Suc)
    then show ?thesis
      by (simp add: comp_def div_mult2_eq del: upt_Suc)
  qed
  then show ?case
    by (simp add: Suc.IH and_255_nat drop_bit_eq_div del: upt_Suc)
qed

lemma create_header_pixels_eq:
  "create_header_pixels cp eb =
     [(hbyte cp 11, hbyte cp 10, hbyte cp 9), (hbyte cp 8, hbyte cp 7, hbyte cp 6),
      (hbyte cp 5, hbyte cp 4, hbyte cp 3), (hbyte cp 2, hbyte cp 1, hbyte cp 0),
      (0, 0, eb)]"
proof -
  have u4: "[0..<4] = [0, Suc 0, 2, 3::nat]"
    by (simp add: upt_rec)
  have u12: "[0..<12] = [0, Suc 0, 2, 3, 4, 5, 6, 7, 8, 9, 10, 11::nat]"
    by (simp add: upt_rec)
  show ?thesis
    by (simp add: create_header_pixels_def length_bytes_loop_eq u4 u12 hbyte_def)
qed

lemma decode_length_eq:
  "decode_length bs = foldl (\<lambda>cp b. cp * 256 + unat b) 0 bs"
  by (simp add: decode_length_def or_shift_byte)

lemma unat_of_hbyte: "unat (of_nat (hbyte cp j) :: byte) = hbyte cp j"
  by (simp add: hbyte_def unat_of_nat take_bit_eq_mod)

lemma hbyte_step: "(cp div 256 ^ Suc j) * 256 + hbyte cp j = cp div 256 ^ j"
proof -
  have "cp div 256 ^ Suc j = cp div (256 ^ j * 256)"
    by (simp add: mult.commute)
  then have "cp div 256 ^ Suc j = (cp div 256 ^ j) div 256"
    by (simp only: div_mult2_eq)
  then show ?thesis
    unfolding hbyte_def by simp
qed

lemma hbytes_sum:
  assumes "cp < 2 ^ 96"
  shows "foldl (\<lambda>a b. a * 256 + b) 0 (map (hbyte cp) (rev [0..<12])) = cp"
proof -
  have gen: "foldl (\<lambda>a b. a * 256 + b) (cp div 256 ^ k) (map (hbyte cp) (rev [0..<k])) = cp" for k
  proof (induction k)
    case 0
    then show ?case by simp
  next
    case (Suc k)
    then show ?case by (simp add: hbyte_step del: power_Suc)
  qed
  have "cp div 256 ^ 12 = 0" using assms by simp
  with gen[of 12] show ?thesis by simp
qed

lemma read_header_pixels_ok:
  assumes "0 < width img" and "\<forall>i\<in>set ixs. i div width img < height img"
  shows "read_header_pixels img ixs = Inr (map (raster_cell img) ixs)"
  using assms by (induction ixs) (simp_all add: read_header_pixel_def raster_cell_def)

lemma upt_5: "[0..<5] = [0, Suc 0, 2, 3, 4::nat]"
  by (simp add: upt_rec)

lemma parse_header_readable:
  assumes "header_readable img"
  shows "parse_header img =
     Inr \<lparr>complete_pixels =
            decode_length (concat (map pixel_bytes (map (raster_cell img) [0, Suc 0, 2, 3]))),
          extra_bits = unat (snd (snd (raster_cell img 4)))\<rparr>"
proof -
  have "i div width img < height img" if "i \<in> set [0..<5]" for i
  proof -
    from that have "i \<le> 4" by simp
    then have "i div width img \<le> 4 div width img" by (rule div_le_mono)
    with assms show ?thesis by (simp add: header_readable_def)
  qed
  with assms have "read_header_pixels img [0..<5] = Inr (map (raster_cell img) [0..<5])"
    by (intro read_header_pixels_ok) (simp_all add: header_readable_def)
  then show ?thesis
    by (simp add: parse_header_def upt_5)
qed

lemma parse_header_unreadable:
  assumes "\<not> header_readable img"
  shows "\<exists>e. parse_header img = Inl e"
proof (cases "width img = 0")
  case True
  then show ?thesis
    by (simp add: parse_header_def upt_5 read_header_pixel_def)
next
  case False
  with assms have "\<not> 4 div width img < height img"
    by (simp add: header_readable_def)
  then have "read_header_pixel img 4 = Inl IndexError"
    using False by (simp add: read_header_pixel_def)
  then show ?thesis
    by (simp add: parse_header_def upt_5 split: sum.splits)
qed

lemma parse_header_of_header:
  assumes rd: "header_readable img"
    and cells: "\<forall>i<5. raster_cell img i = to_u8 (create_header_pixels cp eb ! i)"
    and cp: "cp < 2 ^ 96" and eb: "eb < 256"
  shows "parse_header img = Inr \<lparr>complete_pixels = cp, extra_bits = eb\<rparr>"
proof -
  have c: "raster_cell img 0 = to_u8 (create_header_pixels cp eb ! 0)"
    "raster_cell img (Suc 0) = to_u8 (create_header_pixels cp eb ! 1)"
    "raster_cell img 2 = to_u8 (create_header_pixels cp eb ! 2)"
    "raster_cell img 3 = to_u8 (create_header_pixels cp eb ! 3)"
    "raster_cell img 4 = to_u8 (create_header_pixels cp eb ! 4)"
    using cells by simp_all
  have "foldl (\<lambda>a b. a * 256 + b) 0 (map (hbyte cp) (rev [0..<12])) = cp"
    using cp by (rule hbytes_sum)
  moreover have "rev [0..<12] = [11, 10, 9, 8, 7, 6, 5, 4, 3, 2, Suc 0, 0::nat]"
    by (simp add: upt_rec)
  ultimately have sum: "foldl (\<lambda>a b. a * 256 + b) 0
      (map (hbyte cp) [11, 10, 9, 8, 7, 6, 5, 4, 3, 2, Suc 0, 0]) = cp"
    by simp
  have e: "unat (of_nat eb :: byte) = eb"
    using eb by (simp add: unat_of_nat take_bit_eq_mod)
  show ?thesis
    using sum
    by (simp add: parse_header_readable[OF rd] c create_header_pixels_eq to_u8_def
        pixel_bytes_def decode_length_eq unat_of_hbyte e)
qed



subsection \<open>The raster layout\<close>

lemma ceil_sqrt_spec: "n \<le> ceil_sqrt n * ceil_sqrt n \<and> (\<forall>j<ceil_sqrt n. \<not> n \<le> j * j)"
proof (cases "find (\<lambda>s. n \<le> s * s) [0..<Suc n]")
  case None
  then have "\<not> n \<le> n * n"
    by (auto simp: find_None_iff simp del: upt_Suc)
  then show ?thesis by (cases n) simp_all
next
  case (Some m)
  then obtain i where "i < length [0..<Suc n]" "n \<le> ([0..<Suc n] ! i) * ([0..<Suc n] ! i)"
    "m = [0..<Suc n] ! i" "\<forall>j<i. \<not> n \<le> ([0..<Suc n] ! j) * ([0..<Suc n] ! j)"
    unfolding find_Some_iff by blast
  then have "n \<le> m * m" "\<forall>j<m. \<not> n \<le> j * j"
    by (auto simp del: upt_Suc)
  with Some show ?thesis by (simp add: ceil_sqrt_def)
qed

lemma ceil_sqrt_ge: "n \<le> ceil_sqrt n * ceil_sqrt n"
  using ceil_sqrt_spec by blast

lemma ceil_sqrt_least: "n \<le> s * s \<Longrightarrow> ceil_sqrt n \<le> s"
  using ceil_sqrt_spec[of n] by (meson not_le_imp_less)

lemma ceil_sqrt_square: "ceil_sqrt (k * k) = k"
proof (rule antisym)
  show "ceil_sqrt (k * k) \<le> k" by (rule ceil_sqrt_least) simp
  show "k \<le> ceil_sqrt (k * k)"
  proof (rule ccontr)
    assume "\<not> k \<le> ceil_sqrt (k * k)"
    then have "ceil_sqrt (k * k) < k" by simp
    then have "ceil_sqrt (k * k) * ceil_sqrt (k * k) < k * k"
      by (simp add: mult_strict_mono')
    with ceil_sqrt_ge[of "k * k"] show False by simp
  qed
qed

lemma ceil_sqrt_pos: "0 < n \<Longrightarrow> 0 < ceil_sqrt n"
  using ceil_sqrt_ge[of n] by (cases "ceil_sqrt n") simp_all

lemma ceil_sqrt_pred: "0 < n \<Longrightarrow> (ceil_sqrt n - 1) * (ceil_sqrt n - 1) < n"
  using ceil_sqrt_spec[of n] ceil_sqrt_pos[of n]
  by (metis diff_less not_le_imp_less zero_less_one)

lemma ceil_sqrt_ge3: "5 \<le> n \<Longrightarrow> 3 \<le> ceil_sqrt n"
proof (rule ccontr)
  assume n: "5 \<le> n" and "\<not> 3 \<le> ceil_sqrt n"
  then have "ceil_sqrt n \<le> 2" by arith
  then have "ceil_sqrt n * ceil_sqrt n \<le> 2 * 2" by (intro mult_le_mono)
  with ceil_sqrt_ge[of n] n show False by simp
qed

lemma raster_index:
  assumes "0 < (side::nat)" and "c < side"
  shows "(r * side + c) div side = r" and "(r * side + c) mod side = c"
proof -
  show "(r * side + c) div side = r"
    using assms div_mult_self3[of side r c] by simp
  show "(r * side + c) mod side = c"
    using assms mod_mult_self3[of r side c] by simp
qed

lemma fill_loop_cells:
  assumes "0 < side" and "height img = side" and "width img = side"
    and "k + length ps \<le> side * side"
  shows "\<exists>img'. fill_loop side (enumerate k ps) img = Inr img'
     \<and> height img' = side \<and> width img' = side
     \<and> (\<forall>i. cells img' (i div side) (i mod side) =
           (if k \<le> i \<and> i < k + length ps then to_u8 (ps ! (i - k))
            else cells img (i div side) (i mod side)))"
  using assms
proof (induction ps arbitrary: k img)
  case Nil
  then show ?case by auto
next
  case (Cons p ps)
  let ?img1 = "img\<lparr>cells := (cells img)(k div side := (cells img (k div side))(k mod side := to_u8 p))\<rparr>"
  have "k < side * side" using Cons.prems by simp
  then have row: "k div side < side"
    using Cons.prems(1) by (simp add: less_mult_imp_div_less)
  have col: "k mod side < side" using Cons.prems(1) by simp
  have sc: "set_cell img (k div side) (k mod side) p = Inr ?img1"
    using row col Cons.prems by (simp add: set_cell_def)
  have "\<exists>img'. fill_loop side (enumerate (Suc k) ps) ?img1 = Inr img'
     \<and> height img' = side \<and> width img' = side
     \<and> (\<forall>i. cells img' (i div side) (i mod side) =
           (if Suc k \<le> i \<and> i < Suc k + length ps then to_u8 (ps ! (i - Suc k))
            else cells ?img1 (i div side) (i mod side)))"
    using Cons.prems by (intro Cons.IH) simp_all
  then obtain img' where fl: "fill_loop side (enumerate (Suc k) ps) ?img1 = Inr img'"
    and hw: "height img' = side" "width img' = side"
    and cl: "\<And>i. cells img' (i div side) (i mod side) =
           (if Suc k \<le> i \<and> i < Suc k + length ps then to_u8 (ps ! (i - Suc k))
            else cells ?img1 (i div side) (i mod side))"
    by blast
  have "cells img' (i div side) (i mod side) =
           (if k \<le> i \<and> i < k + length (p # ps) then to_u8 ((p # ps) ! (i - k))
            else cells img (i div side) (i mod side))" for i
  proof (cases "i = k")
    case True
    then show ?thesis by (simp add: cl)
  next
    case False
    then have "i div side \<noteq> k div side \<or> i mod side \<noteq> k mod side"
      by (metis div_mult_mod_eq)
    with False show ?thesis
      by (auto simp: cl nth_Cons' Suc_le_eq)
  qed
  with fl hw sc Cons.prems(1) show ?case by simp
qed

lemma raster_layout_cells:
  "\<exists>img. raster_layout ps = Inr img
     \<and> height img = ceil_sqrt (length ps) \<and> width img = ceil_sqrt (length ps)
     \<and> (\<forall>i. raster_cell img i = (if i < length ps then to_u8 (ps ! i) else white))"
proof (cases "ps = []")
  case True
  have "ceil_sqrt 0 = 0" using ceil_sqrt_square[of 0] by simp
  with True show ?thesis
    by (simp add: raster_layout_def np_full_def raster_cell_def)
next
  case False
  let ?s = "ceil_sqrt (length ps)"
  have pos: "0 < ?s" using False by (simp add: ceil_sqrt_pos)
  have "\<exists>img'. fill_loop ?s (enumerate 0 ps) (np_full ?s) = Inr img'
     \<and> height img' = ?s \<and> width img' = ?s
     \<and> (\<forall>i. cells img' (i div ?s) (i mod ?s) =
           (if 0 \<le> i \<and> i < 0 + length ps then to_u8 (ps ! (i - 0))
            else cells (np_full ?s) (i div ?s) (i mod ?s)))"
    using pos ceil_sqrt_ge[of "length ps"] by (intro fill_loop_cells) (simp_all add: np_full_def)
  then show ?thesis
    by (auto simp: raster_layout_def raster_cell_def np_full_def)
qed

text \<open>
  Claim C9. A pixel list of length \<open>n \<ge> 1\<close> is laid out into a grid of side
  \<open>ceil_sqrt n\<close>, the ceiling of the square root of \<open>n\<close> (the least number whose square
  reaches \<open>n\<close>); pixel \<open>i\<close> is stored at row \<open>i div side\<close> and column \<open>i mod side\<close>, and every
  other cell of the grid holds the white sentinel.
\<close>

theorem raster_layout_shape:
  assumes "1 \<le> length ps"
  shows "\<exists>img. raster_layout ps = Inr img
     \<and> height img = ceil_sqrt (length ps) \<and> width img = ceil_sqrt (length ps)
     \<and> length ps \<le> ceil_sqrt (length ps) * ceil_sqrt (length ps)
     \<and> (ceil_sqrt (length ps) - 1) * (ceil_sqrt (length ps) - 1) < length ps
     \<and> (\<forall>i<length ps. cells img (i div ceil_sqrt (length ps)) (i mod ceil_sqrt (length ps))
            = to_u8 (ps ! i))
     \<and> (\<forall>row<ceil_sqrt (length ps). \<forall>col<ceil_sqrt (length ps).
            length ps \<le> row * ceil_sqrt (length ps) + col \<longrightarrow> cells img row col = white)"
proof -
  let ?s = "ceil_sqrt (length ps)"
  obtain img where lay: "raster_layout ps = Inr img"
    and hw: "height img = ?s" "width img = ?s"
    and cl: "\<And>i. raster_cell img i = (if i < length ps then to_u8 (ps ! i) else white)"
    using raster_layout_cells[of ps] by blast
  have real: "cells img (i div ?s) (i mod ?s) = to_u8 (ps ! i)" if "i < length ps" for i
    using cl[of i] that by (simp add: raster_cell_def hw)
  have pad: "cells img row col = white"
    if "row < ?s" "col < ?s" "length ps \<le> row * ?s + col" for row col
  proof -
    have "0 < ?s" using that by simp
    then have "(row * ?s + col) div ?s = row" "(row * ?s + col) mod ?s = col"
      using that by (simp_all add: raster_index)
    with cl[of "row * ?s + col"] that show ?thesis
      by (simp add: raster_cell_def hw)
  qed
  from assms have "0 < length ps" by (cases ps) simp_all
  then have "(?s - 1) * (?s - 1) < length ps" by (rule ceil_sqrt_pred)
  with lay hw real pad ceil_sqrt_ge[of "length ps"] show ?thesis by blast
qed

text \<open>Two pixels in a grid of side 2: the second row is white.\<close>

theorem raster_layout_shape_witness:
  "1 \<le> length [(1, 2, 3), (4, 5, 6) :: py_pixel]
   \<and> (\<exists>img. raster_layout [(1, 2, 3), (4, 5, 6)] = Inr img
         \<and> height img = 2 \<and> width img = 2
         \<and> cells img 0 0 = (1, 2, 3) \<and> cells img 0 1 = (4, 5, 6)
         \<and> cells img 1 0 = white \<and> cells img 1 1 = white)"
proof -
  let ?ps = "[(1, 2, 3), (4, 5, 6) :: py_pixel]"
  have len: "1 \<le> length ?ps" by simp
  have s: "ceil_sqrt (length ?ps) = 2"
    by (simp add: ceil_sqrt_def upt_rec)
  from raster_layout_shape [OF len] obtain img where lay: "raster_layout ?ps = Inr img"
    and hw: "height img = 2" "width img = 2"
    and real: "\<forall>i<length ?ps. cells img (i div 2) (i mod 2) = to_u8 (?ps ! i)"
    and pad: "\<forall>row<2. \<forall>col<2. length ?ps \<le> row * 2 + col \<longrightarrow> cells img row col = white"
    unfolding s by blast
  from real have "cells img (0 div 2) (0 mod 2) = to_u8 (?ps ! 0)"
    "cells img (1 div 2) (1 mod 2) = to_u8 (?ps ! 1)"
    by simp_all
  then have r: "cells img 0 0 = (1, 2, 3)" "cells img 0 1 = (4, 5, 6)"
    by (simp_all add: to_u8_def)
  from pad have "cells img 1 0 = white" "cells img 1 1 = white"
    by simp_all
  with lay hw r len show ?thesis by blast
qed

subsection \<open>The encoder's pixel lists\<close>

lemma take_then_take:
  assumes "d \<le> m"
  shows "take d f @ take (m - min (length f) d) (drop d f) = take m f"
proof (cases "d \<le> length f")
  case True
  have "take d f @ take (m - d) (drop d f) = take (d + (m - d)) f"
    by (simp only: take_add)
  with True assms show ?thesis by (simp add: min_absorb2)
next
  case False
  with assms show ?thesis by simp
qed

lemma drop_then_drop:
  assumes "d \<le> m"
  shows "drop (m - min (length f) d) (drop d f) = drop m f"
proof (cases "d \<le> length f")
  case True
  with assms show ?thesis by (simp add: min_absorb2)
next
  case False
  with assms show ?thesis by simp
qed

lemma read_loop_eq:
  "0 < cs \<Longrightarrow> read_loop cs n chunk f = (chunk @ take (n - length chunk) f, drop (n - length chunk) f)"
proof (induction cs n chunk f rule: read_loop.induct)
  case (1 cs n chunk f)
  define m where "m = n - length chunk"
  define d where "d = min cs m"
  have dm: "d \<le> m" by (simp add: d_def)
  show ?case
  proof (cases "length chunk < n")
    case False
    then show ?thesis by (subst read_loop.simps) simp
  next
    case less: True
    then have dpos: "0 < d" using 1(2) by (simp add: d_def m_def)
    show ?thesis
    proof (cases "take d f = []")
      case True
      with dpos have "f = []" by simp
      with less show ?thesis by (subst read_loop.simps) simp
    next
      case False
      have "read_loop cs n (chunk @ take d f) (drop d f)
          = ((chunk @ take d f) @ take (n - length (chunk @ take d f)) (drop d f),
             drop (n - length (chunk @ take d f)) (drop d f))"
        using less False 1(2) unfolding d_def m_def by (intro 1(1)) simp_all
      moreover have "n - length (chunk @ take d f) = m - min (length f) d"
        by (simp add: m_def)
      ultimately have "read_loop cs n (chunk @ take d f) (drop d f) = (chunk @ take m f, drop m f)"
        using take_then_take[OF dm, of f] drop_then_drop[OF dm, of f] by simp
      moreover have "read_loop cs n chunk f = read_loop cs n (chunk @ take d f) (drop d f)"
        using less False dpos unfolding d_def m_def
        by (subst read_loop.simps) (auto simp: min_def)
      ultimately show ?thesis by (simp add: m_def)
    qed
  qed
qed

lemma read_chunk:
  assumes "0 < K"
  shows "read_loop (min n K) n [] f = (take n f, drop n f)"
proof (cases "n = 0")
  case True
  then show ?thesis by (subst read_loop.simps) simp
next
  case False
  with assms have "0 < min n K" by simp
  then show ?thesis by (simp add: read_loop_eq)
qed

lemma bytes_to_pixels_take: "bytes_to_pixels (take (3 * j) bs) = take j (bytes_to_pixels bs)"
proof (induction bs arbitrary: j rule: bytes_to_pixels.induct)
  case (1 r g b rest)
  then show ?case by (cases j) (simp_all add: numeral_3_eq_3)
next
  case (2 r g)
  then show ?case by (cases j) (simp_all add: numeral_3_eq_3)
next
  case (3 r)
  then show ?case by (cases j) (simp_all add: numeral_3_eq_3)
next
  case 4
  then show ?case by simp
qed

lemma bytes_to_pixels_drop: "bytes_to_pixels (drop (3 * j) bs) = drop j (bytes_to_pixels bs)"
proof (induction bs arbitrary: j rule: bytes_to_pixels.induct)
  case (1 r g b rest)
  then show ?case by (cases j) (simp_all add: numeral_3_eq_3)
next
  case (2 r g)
  then show ?case by (cases j) (simp_all add: numeral_3_eq_3)
next
  case (3 r)
  then show ?case by (cases j) (simp_all add: numeral_3_eq_3)
next
  case 4
  then show ?case by simp
qed

lemma length_bytes_to_pixels: "length (bytes_to_pixels bs) = (length bs + 2) div 3"
  by (induction bs rule: bytes_to_pixels.induct) simp_all

lemma length_create_header_pixels: "length (create_header_pixels cp eb) = 5"
  by (simp add: create_header_pixels_eq)

lemma complete_pixels_calc: "complete_pixels (calc_header n) = n div 3"
  by (simp add: calc_header_def Let_def)

lemma extra_bits_calc: "extra_bits (calc_header n) = 8 * (n mod 3)"
proof -
  have "8 * (n mod 3) = 8 * n mod (8 * 3)" by (rule mult_mod_right)
  then show ?thesis by (simp add: calc_header_def Let_def mult.commute)
qed

lemma ceil8_extra_bits_calc: "ceil8 (extra_bits (calc_header n)) = n mod 3"
  by (simp add: extra_bits_calc ceil8_def)

lemma data_pixels_calc: "data_pixels (calc_header n) = (n + 2) div 3"
proof -
  have "n div 3 + (if 0 < n mod 3 then 1 else 0) = (n + 2) div 3" by presburger
  then show ?thesis by (simp add: data_pixels_def complete_pixels_calc extra_bits_calc)
qed

lemma ceil_div_less_iff:
  assumes "0 < M"
  shows "k < ceil_div T M \<longleftrightarrow> k * M < T"
proof -
  have "k < (T + M - 1) div M \<longleftrightarrow> Suc k \<le> (T + M - 1) div M"
    by (simp add: Suc_le_eq)
  also have "\<dots> \<longleftrightarrow> Suc k * M \<le> T + M - 1"
    using assms by (simp only: less_eq_div_iff_mult_less_eq)
  also have "\<dots> \<longleftrightarrow> k * M < T"
  proof (cases T)
    case 0
    with assms show ?thesis by simp
  next
    case (Suc t)
    then have "T + M - 1 = t + M" by simp
    with Suc show ?thesis by (simp add: less_Suc_eq_le)
  qed
  finally show ?thesis by (simp add: ceil_div_def)
qed

lemma rest_bytes:
  fixes x L :: nat
  assumes "x < 6 + L div 3" and "5 \<le> x"
  shows "(6 + L div 3 - x - 1) * 3 + L mod 3 = L - 3 * (x - 5)"
proof -
  have L: "L = 3 * (L div 3) + L mod 3" by simp
  define q where "q = L div 3"
  define r where "r = L mod 3"
  have "(6 + q - x - 1) * 3 + r = (3 * q + r) - 3 * (x - 5)"
    using assms unfolding q_def[symmetric] by simp
  then show ?thesis using L unfolding q_def r_def by simp
qed

lemma total_pixels_calc: "total_pixels_needed (calc_header n) = 5 + (n + 2) div 3"
  by (simp add: total_pixels_needed_def data_pixels_calc)

lemma length_all_pixels: "length (all_pixels file) = total_pixels_needed (calc_header (length file))"
  by (simp add: all_pixels_def Let_def length_create_header_pixels length_bytes_to_pixels
      total_pixels_calc)

lemma last_image_iff:
  assumes "0 < M" and "k < num_images M h"
  shows "k = num_images M h - 1 \<longleftrightarrow> total_pixels_needed h \<le> Suc k * M"
proof -
  have "Suc k < num_images M h \<longleftrightarrow> Suc k * M < total_pixels_needed h"
    unfolding num_images_def using assms(1) by (rule ceil_div_less_iff)
  with assms(2) show ?thesis by auto
qed

text \<open>The number of bytes one iteration reads and the pixels it makes of them.\<close>

lemma encode_image_first:
  assumes M: "5 \<le> M" and k: "0 < num_images M h" and h: "h = calc_header (length file)"
  shows "fst (encode_image M h 0 file) = take M (all_pixels file)"
    and "Suc 0 < num_images M h \<Longrightarrow> snd (encode_image M h 0 file) = drop (3 * (M - 5)) file"
proof -
  let ?L = "length file"
  let ?T = "total_pixels_needed h"
  let ?hdr = "create_header_pixels (complete_pixels h) (extra_bits h)"
  have T: "?T = 5 + (?L + 2) div 3" by (simp add: h total_pixels_calc)
  have P: "all_pixels file = ?hdr @ bytes_to_pixels file" by (simp add: all_pixels_def h Let_def)
  have lenP: "length (all_pixels file) = ?T" by (simp add: length_all_pixels h)
  have lenh: "length ?hdr = 5" by (rule length_create_header_pixels)
  have last: "0 = num_images M h - 1 \<longleftrightarrow> ?T \<le> M"
    using last_image_iff[of M 0 h] M k by simp
  have eb: "0 < extra_bits h \<longleftrightarrow> ?L mod 3 \<noteq> 0" by (simp add: h extra_bits_calc)
  have c8: "ceil8 (extra_bits h) = ?L mod 3" by (simp add: h ceil8_extra_bits_calc)
  define B where "B = (if 0 = num_images M h - 1 \<and> extra_bits h > 0
             then (min M ?T - 5 - 1) * 3 + ceil8 (extra_bits h)
             else (min M ?T - 5) * 3)"
  have enc: "encode_image M h 0 file = (?hdr @ bytes_to_pixels (take B file), drop B file)"
    by (simp add: encode_image_def Let_def read_chunk B_def)
  have fst_take: "?hdr @ bytes_to_pixels (take B file) = take M (all_pixels file)"
  proof (cases "0 = num_images M h - 1 \<and> extra_bits h > 0")
    case True
    then have TM: "?T \<le> M" and r: "?L mod 3 \<noteq> 0" using last eb by simp_all
    have "B = (?T - 5 - 1) * 3 + ?L mod 3" using True TM by (simp add: B_def c8 min_absorb2)
    also have "\<dots> = ?L" using r unfolding T by simp presburger
    finally have "take B file = file" by simp
    with TM lenP show ?thesis by (simp add: P)
  next
    case False
    then have B: "B = 3 * (min M ?T - 5)" unfolding B_def by auto
    have "5 \<le> min M ?T" using M T by simp
    then have "take (min M ?T) (?hdr @ bytes_to_pixels file)
        = ?hdr @ take (min M ?T - 5) (bytes_to_pixels file)"
      using lenh by simp
    moreover have "take (min M ?T) (all_pixels file) = take M (all_pixels file)"
      using lenP by (simp add: min_def)
    ultimately show ?thesis by (simp add: B bytes_to_pixels_take P)
  qed
  show "fst (encode_image M h 0 file) = take M (all_pixels file)"
    by (simp add: enc fst_take)
  show "snd (encode_image M h 0 file) = drop (3 * (M - 5)) file" if "Suc 0 < num_images M h"
  proof -
    from that have "0 \<noteq> num_images M h - 1" by simp
    moreover from this last have "min M ?T = M" by simp
    ultimately have "B = 3 * (M - 5)" by (simp add: B_def)
    then show ?thesis by (simp add: enc)
  qed
qed

lemma encode_image_later:
  assumes M: "5 \<le> M" and k0: "0 < k" and k: "k < num_images M h"
    and h: "h = calc_header (length file)"
  shows "fst (encode_image M h k (drop (3 * (k * M - 5)) file)) = take M (drop (k * M) (all_pixels file))"
    and "Suc k < num_images M h \<Longrightarrow>
         snd (encode_image M h k (drop (3 * (k * M - 5)) file)) = drop (3 * (Suc k * M - 5)) file"
proof -
  let ?L = "length file"
  let ?T = "total_pixels_needed h"
  let ?hdr = "create_header_pixels (complete_pixels h) (extra_bits h)"
  let ?f = "drop (3 * (k * M - 5)) file"
  have T: "?T = 5 + (?L + 2) div 3" by (simp add: h total_pixels_calc)
  have P: "all_pixels file = ?hdr @ bytes_to_pixels file" by (simp add: all_pixels_def h Let_def)
  have lenP: "length (all_pixels file) = ?T" by (simp add: length_all_pixels h)
  have lenh: "length ?hdr = 5" by (rule length_create_header_pixels)
  have kT: "k * M < ?T"
    using k M ceil_div_less_iff[of M k ?T] by (simp add: num_images_def)
  have Mk: "M \<le> k * M" using k0 by simp
  have k5: "5 \<le> k * M" using M Mk by (rule order_trans)
  have "M < ?T" using Mk kT by (rule le_less_trans)
  then have MT: "min M ?T = M" by simp
  have already: "5 + (k - 1) * M + (min M ?T - 5) = k * M"
  proof -
    have "(k - 1) * M + M = k * M" using k0 by (cases k) simp_all
    with M show ?thesis unfolding MT by simp
  qed
  have last: "k = num_images M h - 1 \<longleftrightarrow> ?T \<le> Suc k * M"
    using last_image_iff[of M k h] M k by simp
  have eb: "0 < extra_bits h \<longleftrightarrow> ?L mod 3 \<noteq> 0" by (simp add: h extra_bits_calc)
  have c8: "ceil8 (extra_bits h) = ?L mod 3" by (simp add: h ceil8_extra_bits_calc)
  define dpi where "dpi = min M (?T - k * M)"
  define B where "B = (if k = num_images M h - 1 \<and> extra_bits h > 0
             then (dpi - 1) * 3 + ceil8 (extra_bits h) else dpi * 3)"
  have enc: "encode_image M h k f' = (bytes_to_pixels (take B f'), drop B f')" for f'
    unfolding encode_image_def Let_def already B_def dpi_def
    using k0 by (simp add: read_chunk)
  have dropP: "drop (k * M) (all_pixels file) = drop (k * M - 5) (bytes_to_pixels file)"
    using k5 lenh by (simp add: P)
  have fdrop: "bytes_to_pixels ?f = drop (k * M - 5) (bytes_to_pixels file)"
    by (rule bytes_to_pixels_drop)
  have "bytes_to_pixels (take B ?f) = take M (drop (k * M) (all_pixels file))"
  proof (cases "k = num_images M h - 1 \<and> extra_bits h > 0")
    case True
    then have TM: "?T \<le> Suc k * M" and r: "?L mod 3 \<noteq> 0" using last eb by simp_all
    then have d: "dpi = ?T - k * M" by (simp add: dpi_def)
    have T6: "?T = 6 + ?L div 3" using r unfolding T by presburger
    have "B = (?T - k * M - 1) * 3 + ?L mod 3" using True by (simp add: B_def c8 d)
    also have "\<dots> = ?L - 3 * (k * M - 5)"
      using kT k5 unfolding T6 by (rule rest_bytes)
    finally have "take B ?f = ?f" by simp
    moreover have "length (drop (k * M) (all_pixels file)) \<le> M"
      using TM lenP by simp
    ultimately show ?thesis by (simp add: fdrop dropP)
  next
    case False
    then have B: "B = 3 * dpi" unfolding B_def by auto
    have "bytes_to_pixels (take B ?f) = take dpi (drop (k * M) (all_pixels file))"
      by (simp add: B bytes_to_pixels_take fdrop dropP)
    moreover have "take dpi (drop (k * M) (all_pixels file)) = take M (drop (k * M) (all_pixels file))"
      using lenP by (simp add: dpi_def min_def)
    ultimately show ?thesis by simp
  qed
  then show "fst (encode_image M h k ?f) = take M (drop (k * M) (all_pixels file))"
    by (simp add: enc)
  show "snd (encode_image M h k ?f) = drop (3 * (Suc k * M - 5)) file" if "Suc k < num_images M h"
  proof -
    from that have nl: "k \<noteq> num_images M h - 1" by simp
    with last have "dpi = M" by (simp add: dpi_def)
    with nl have "B = 3 * M" by (simp add: B_def)
    moreover have "3 * M + 3 * (k * M - 5) = 3 * (Suc k * M - 5)" using k5 by simp
    ultimately show ?thesis by (simp add: enc)
  qed
qed

lemma encode_images_chunks:
  assumes M: "5 \<le> M" and h: "h = calc_header (length file)" and k: "k \<le> num_images M h"
  shows "encode_images M h [k..<num_images M h] (drop (3 * (k * M - 5)) file)
       = map (\<lambda>j. take M (drop (j * M) (all_pixels file))) [k..<num_images M h]"
  using k
proof (induction "num_images M h - k" arbitrary: k)
  case 0
  then show ?case by simp
next
  case (Suc d)
  then have k: "k < num_images M h" by simp
  then have upt: "[k..<num_images M h] = k # [Suc k..<num_images M h]"
    by (rule upt_conv_Cons)
  let ?f = "drop (3 * (k * M - 5)) file"
  have f: "fst (encode_image M h k ?f) = take M (drop (k * M) (all_pixels file))"
  proof (cases "k = 0")
    case True
    with encode_image_first(1)[OF M _ h] k show ?thesis by simp
  next
    case False
    with encode_image_later(1)[OF M _ k h] show ?thesis by simp
  qed
  have rest: "encode_images M h [Suc k..<num_images M h] (snd (encode_image M h k ?f))
       = map (\<lambda>j. take M (drop (j * M) (all_pixels file))) [Suc k..<num_images M h]"
  proof (cases "Suc k < num_images M h")
    case True
    have "snd (encode_image M h k ?f) = drop (3 * (Suc k * M - 5)) file"
    proof (cases "k = 0")
      case True
      with encode_image_first(2)[OF M _ h] \<open>Suc k < num_images M h\<close> show ?thesis by simp
    next
      case False
      with encode_image_later(2)[OF M _ k h] True show ?thesis by simp
    qed
    moreover have "d = num_images M h - Suc k" using Suc.hyps(2) by simp
    ultimately show ?thesis using Suc.hyps(1)[of "Suc k"] True by simp
  next
    case False
    then show ?thesis by simp
  qed
  show ?case
    unfolding upt using f rest by (simp add: case_prod_unfold)
qed

lemma image_pixel_lists_chunks:
  assumes "5 \<le> M"
  shows "image_pixel_lists M file
       = map (\<lambda>j. take M (drop (j * M) (all_pixels file)))
           [0..<num_images M (calc_header (length file))]"
proof -
  let ?h = "calc_header (length file)"
  have "encode_images M ?h [0..<num_images M ?h] (drop (3 * (0 * M - 5)) file)
       = map (\<lambda>j. take M (drop (j * M) (all_pixels file))) [0..<num_images M ?h]"
    using assms by (intro encode_images_chunks) simp_all
  then show ?thesis
    by (simp add: image_pixel_lists_def Let_def)
qed

subsection \<open>The decoder on a stream of payload pixels\<close>

lemma target_le_total: "bytes_target h \<le> total_bytes h"
  by (simp add: bytes_target_def total_bytes_def)

lemma cols_loop_feed:
  "cols_loop h img start_pixel row cols st
     = feed h (map (cells img row) (filter (\<lambda>col. \<not> row * width img + col < start_pixel) cols)) st"
  by (induction cols arbitrary: st) simp_all

lemma feed_idle: "total_bytes h \<le> bytes_written st \<Longrightarrow> feed h ps st = st"
  using target_le_total[of h] by (cases ps) simp_all

lemma write_pixel_le_target:
  "bytes_written st \<le> bytes_target h \<Longrightarrow> bytes_written (write_pixel h p st) \<le> bytes_target h"
  by (cases p) (simp add: write_pixel_def write_byte_def Let_def)

lemma ceil8_small: "0 < e \<Longrightarrow> e \<le> 24 \<Longrightarrow> ceil8 e = 1 \<or> ceil8 e = 2 \<or> ceil8 e = 3"
  unfolding ceil8_def by arith

lemma write_extra_total:
  assumes "0 < extra_bits h" and "extra_bits h \<le> 24" and "bytes_written st = bytes_target h"
  shows "bytes_written (write_extra h p st) = total_bytes h"
proof -
  have t: "total_bytes h = bytes_target h + ceil8 (extra_bits h)"
    using assms(1) by (simp add: total_bytes_def bytes_target_def)
  from ceil8_small[OF assms(1,2)] show ?thesis
    by (cases p) (auto simp: write_extra_def write_byte_def Let_def t assms(3))
qed

lemma feed_settled:
  assumes "extra_bits h \<le> 24" and "settled h st"
  shows "settled h (feed h ps st)"
  using assms(2)
proof (induction ps arbitrary: st)
  case Nil
  then show ?case by simp
next
  case (Cons p ps)
  show ?case
  proof (cases "bytes_written st \<ge> bytes_target h")
    case True
    show ?thesis
    proof (cases "extra_bits h > 0 \<and> bytes_written st < total_bytes h")
      case True
      with Cons.prems \<open>bytes_written st \<ge> bytes_target h\<close>
      have "bytes_written st = bytes_target h" by (auto simp: settled_def)
      with True assms(1) have "bytes_written (write_extra h p st) = total_bytes h"
        by (intro write_extra_total) simp_all
      with True \<open>bytes_written st \<ge> bytes_target h\<close> show ?thesis by (simp add: settled_def)
    next
      case False
      with True Cons.prems show ?thesis by auto
    qed
  next
    case False
    then have "bytes_written (write_pixel h p st) \<le> bytes_target h"
      by (intro write_pixel_le_target) simp
    then have "settled h (write_pixel h p st)" by (simp add: settled_def)
    with False Cons.IH show ?thesis by simp
  qed
qed

lemma feed_append:
  assumes "extra_bits h \<le> 24" and "settled h st"
  shows "feed h (xs @ ys) st = feed h ys (feed h xs st)"
  using assms(2)
proof (induction xs arbitrary: st)
  case Nil
  then show ?case by simp
next
  case (Cons p xs)
  show ?case
  proof (cases "bytes_written st \<ge> bytes_target h")
    case True
    let ?st' = "feed h (p # xs) st"
    have "total_bytes h \<le> bytes_written ?st'"
    proof (cases "extra_bits h > 0 \<and> bytes_written st < total_bytes h")
      case ex: True
      with Cons.prems True have "bytes_written st = bytes_target h" by (auto simp: settled_def)
      with ex assms(1) have "bytes_written (write_extra h p st) = total_bytes h"
        by (intro write_extra_total) simp_all
      with ex True show ?thesis by simp
    next
      case False
      with True show ?thesis by (auto simp: total_bytes_def bytes_target_def)
    qed
    then have "feed h ys ?st' = ?st'" by (rule feed_idle)
    moreover have "feed h ((p # xs) @ ys) st = ?st'" using True by simp
    ultimately show ?thesis by simp
  next
    case False
    then have "bytes_written (write_pixel h p st) \<le> bytes_target h"
      by (intro write_pixel_le_target) simp
    then have "settled h (write_pixel h p st)" by (simp add: settled_def)
    with False Cons.IH show ?thesis by simp
  qed
qed

lemma rows_loop_feed:
  assumes "extra_bits h \<le> 24" and "settled h st"
  shows "rows_loop h img start_pixel rows st
       = feed h (concat (map (row_payload img start_pixel) rows)) st"
  using assms(2)
proof (induction rows arbitrary: st)
  case Nil
  then show ?case by simp
next
  case (Cons row rows)
  let ?st' = "feed h (row_payload img start_pixel row) st"
  have c: "cols_loop h img start_pixel row [0..<width img] st = ?st'"
    by (simp add: cols_loop_feed row_payload_def)
  have s: "settled h ?st'" using assms(1) Cons.prems by (rule feed_settled)
  have "rows_loop h img start_pixel (row # rows) st
      = feed h (concat (map (row_payload img start_pixel) rows)) ?st'"
  proof (cases "bytes_written ?st' \<ge> total_bytes h")
    case True
    then show ?thesis by (simp add: c feed_idle)
  next
    case False
    then show ?thesis by (simp add: c Cons.IH[OF s])
  qed
  then show ?case
    by (simp add: feed_append[OF assms(1) Cons.prems])
qed

lemma images_loop_feed:
  assumes "extra_bits h \<le> 24" and "settled h st"
  shows "images_loop h idx imgs st = feed h (series_payload idx imgs) st"
  using assms(2)
proof (induction imgs arbitrary: st idx)
  case Nil
  then show ?case by simp
next
  case (Cons img imgs)
  define start :: nat where "start = (if idx = 1 then 5 else 0)"
  define st' where "st' = feed h (image_payload img start) st"
  have r: "rows_loop h img start [0..<height img] st = st'"
    using assms(1) Cons.prems by (simp add: rows_loop_feed image_payload_def st'_def)
  have s: "settled h st'"
    unfolding st'_def using assms(1) Cons.prems by (rule feed_settled)
  have unfold: "images_loop h idx (img # imgs) st
      = (if bytes_written st' \<ge> total_bytes h then st' else images_loop h (idx + 1) imgs st')"
    using r by (simp add: start_def Let_def)
  have "images_loop h idx (img # imgs) st = feed h (series_payload (idx + 1) imgs) st'"
  proof (cases "bytes_written st' \<ge> total_bytes h")
    case True
    then show ?thesis unfolding unfold by (simp add: feed_idle)
  next
    case False
    then show ?thesis unfolding unfold using Cons.IH[OF s, of "idx + 1"] by simp
  qed
  moreover have "feed h (series_payload idx (img # imgs)) st
      = feed h (series_payload (idx + 1) imgs) st'"
    unfolding st'_def start_def
    using feed_append[OF assms(1) Cons.prems] by simp
  ultimately show ?case by simp
qed

lemma filter_ge_upt: "filter (\<lambda>c. \<not> c < k) [0..<w] = [k..<w]"
  by (induction w) (auto simp: not_less)

lemma row_cells:
  "map (raster_cell img) [r * width img..<r * width img + width img] = map (cells img r) [0..<width img]"
proof (cases "width img = 0")
  case True
  then show ?thesis by simp
next
  case False
  have "[r * width img..<r * width img + width img] = map (\<lambda>c. r * width img + c) [0..<width img]"
    by (simp add: map_add_upt add.commute)
  moreover have "raster_cell img (r * width img + c) = cells img r c" if "c < width img" for c
    using that False by (simp add: raster_cell_def)
  ultimately show ?thesis by (simp add: comp_def)
qed

lemma row_payload_drop:
  "row_payload img start_pixel r
     = drop (start_pixel - r * width img)
         (map (raster_cell img) [r * width img..<r * width img + width img])"
proof -
  have "(\<lambda>col. \<not> r * width img + col < start_pixel) = (\<lambda>col. \<not> col < start_pixel - r * width img)"
    by (rule ext) arith
  then have "filter (\<lambda>col. \<not> r * width img + col < start_pixel) [0..<width img]
      = drop (start_pixel - r * width img) [0..<width img]"
    by (simp add: filter_ge_upt)
  then show ?thesis
    by (simp add: row_payload_def row_cells drop_map)
qed

lemma rows_payload_raster:
  "concat (map (row_payload img start_pixel) [0..<n])
     = drop start_pixel (map (raster_cell img) [0..<n * width img])"
proof (induction n)
  case 0
  then show ?case by simp
next
  case (Suc n)
  have "[0..<Suc n * width img] = [0..<n * width img] @ [n * width img..<n * width img + width img]"
    by (metis add.commute le_add2 mult_Suc upt_add_eq_append zero_le)
  moreover have "concat (map (row_payload img start_pixel) [0..<Suc n])
      = drop start_pixel (map (raster_cell img) [0..<n * width img])
        @ row_payload img start_pixel n"
    by (simp add: Suc.IH)
  moreover note row_payload_drop[of img start_pixel n]
  ultimately show ?case
    by (simp only: mult_Suc add.commute[of "width img"] map_append drop_append length_map
        length_upt diff_zero)
qed

lemma image_payload_raster: "image_payload img start_pixel = drop start_pixel (raster img)"
  by (simp add: image_payload_def raster_def rows_payload_raster)

lemma series_payload_later:
  "1 < idx \<Longrightarrow> series_payload idx imgs = concat (map raster imgs)"
  by (induction imgs arbitrary: idx) (simp_all add: image_payload_raster)

lemma series_payload_first:
  "series_payload 1 (img # rest) = drop 5 (raster img) @ concat (map raster rest)"
  by (simp add: image_payload_raster series_payload_later)

lemma ceil8_times8: "ceil8 (8 * k) = k"
  by (simp add: ceil8_def)

lemma div_mod_3:
  fixes q :: nat
  shows "(3 * q + 2) mod 3 = 2" "(3 * q + 2) div 3 = q" "(3 * q + 1) mod 3 = 1" "(3 * q + 1) div 3 = q"
  by arith+

lemma total_bytes_calc: "total_bytes (calc_header n) = n"
  by (simp add: total_bytes_def complete_pixels_calc extra_bits_calc ceil8_times8) arith

lemma bytes_target_calc: "bytes_target (calc_header n) = 3 * (n div 3)"
  by (simp add: bytes_target_def complete_pixels_calc)

lemma to_u8_unat: "to_u8 (unat r, unat g, unat b) = (r, g, b)"
  by (simp add: to_u8_def)

lemma to_u8_unat_0: "to_u8 (unat r, unat g, 0) = (r, g, 0)" "to_u8 (unat r, 0, 0) = (r, 0, 0)"
  by (simp_all add: to_u8_def)

lemma feed_file:
  assumes "length pre mod 3 = 0" and "h = calc_header (length (pre @ suf))"
  shows "feed h (map to_u8 (bytes_to_pixels suf) @ pad) \<lparr>bytes_written = length pre, out_file = pre\<rparr>
       = \<lparr>bytes_written = length (pre @ suf), out_file = pre @ suf\<rparr>"
  using assms
proof (induction suf arbitrary: pre rule: bytes_to_pixels.induct)
  case (1 r g b rest)
  from 1(2) obtain q where q: "length pre = 3 * q" by (auto simp: mod_eq_0_iff_dvd)
  have tgt: "bytes_target h = 3 * (q + 1 + length rest div 3)"
    unfolding 1(3) bytes_target_calc using q by simp arith
  let ?st = "\<lparr>bytes_written = length pre, out_file = pre\<rparr>"
  have w: "write_pixel h (r, g, b) ?st
      = \<lparr>bytes_written = length (pre @ [r, g, b]), out_file = pre @ [r, g, b]\<rparr>"
    by (simp add: write_pixel_def write_byte_def Let_def tgt q)
  have "feed h (map to_u8 (bytes_to_pixels rest) @ pad)
          \<lparr>bytes_written = length (pre @ [r, g, b]), out_file = pre @ [r, g, b]\<rparr>
      = \<lparr>bytes_written = length ((pre @ [r, g, b]) @ rest), out_file = (pre @ [r, g, b]) @ rest\<rparr>"
    using 1(2,3) by (intro 1(1)) simp_all
  moreover have "\<not> bytes_target h \<le> bytes_written ?st" by (simp add: tgt q)
  ultimately show ?case
    by (simp add: to_u8_unat w del: length_append)
next
  case (2 r g)
  from 2(1) obtain q where q: "length pre = 3 * q" by (auto simp: mod_eq_0_iff_dvd)
  have L: "length (pre @ [r, g]) = 3 * q + 2" using q by simp
  have tgt: "bytes_target h = 3 * q" unfolding 2(2) bytes_target_calc L by (simp only: div_mod_3)
  have tot: "total_bytes h = 3 * q + 2" unfolding 2(2) total_bytes_calc L by simp
  have eb: "extra_bits h = 16" unfolding 2(2) extra_bits_calc L by (simp only: div_mod_3 | simp)+
  show ?case
    by (simp add: to_u8_unat_0 tgt tot eb q write_extra_def write_byte_def Let_def ceil8_def)
next
  case (3 r)
  from 3(1) obtain q where q: "length pre = 3 * q" by (auto simp: mod_eq_0_iff_dvd)
  have L: "length (pre @ [r]) = 3 * q + 1" using q by simp
  have tgt: "bytes_target h = 3 * q" unfolding 3(2) bytes_target_calc L by (simp only: div_mod_3)
  have tot: "total_bytes h = 3 * q + 1" unfolding 3(2) total_bytes_calc L by simp
  have eb: "extra_bits h = 8" unfolding 3(2) extra_bits_calc L by (simp only: div_mod_3 | simp)+
  show ?case
    by (simp add: to_u8_unat_0 tgt tot eb q write_extra_def write_byte_def Let_def ceil8_def)
next
  case 4
  have "total_bytes h = length pre" unfolding 4(2) total_bytes_calc by simp
  then show ?case by (simp add: feed_idle)
qed

lemma raster_layout_holds: "\<exists>img. raster_layout ps = Inr img \<and> holds_pixels ps img"
  using raster_layout_cells[of ps] by (auto simp: holds_pixels_def)

lemma layout_all_holds: "\<exists>imgs. layout_all pss = Inr imgs \<and> list_all2 holds_pixels pss imgs"
proof (induction pss)
  case Nil
  then show ?case by simp
next
  case (Cons ps pss)
  obtain img where "raster_layout ps = Inr img" "holds_pixels ps img"
    using raster_layout_holds by blast
  moreover obtain imgs where "layout_all pss = Inr imgs" "list_all2 holds_pixels pss imgs"
    using Cons.IH by blast
  ultimately show ?case by simp
qed

lemma holds_raster:
  assumes "holds_pixels ps img"
  shows "raster img = map to_u8 ps @ drop (length ps) (raster img)"
proof -
  let ?s = "ceil_sqrt (length ps)"
  have n: "length ps \<le> height img * width img"
    using assms ceil_sqrt_ge[of "length ps"] by (simp add: holds_pixels_def)
  have "take (length ps) (raster img) = map (raster_cell img) [0..<length ps]"
    using n by (simp add: raster_def take_map)
  also have "\<dots> = map to_u8 ps"
    using assms by (intro nth_equalityI) (simp_all add: holds_pixels_def)
  finally have "take (length ps) (raster img) = map to_u8 ps" .
  then show ?thesis
    by (metis append_take_drop_id)
qed

lemma holds_raster_full:
  assumes "holds_pixels ps img" and "length ps = ceil_sqrt (length ps) * ceil_sqrt (length ps)"
  shows "raster img = map to_u8 ps"
proof -
  have "length (raster img) = length ps"
    using assms by (simp add: raster_def holds_pixels_def)
  with holds_raster[OF assms(1)] show ?thesis by simp
qed

lemma series_raster:
  assumes "list_all2 holds_pixels pss imgs"
    and "\<forall>ps\<in>set (butlast pss). length ps = ceil_sqrt (length ps) * ceil_sqrt (length ps)"
  shows "\<exists>pad. concat (map raster imgs) = map to_u8 (concat pss) @ pad"
  using assms
proof (induction rule: list_all2_induct)
  case Nil
  then show ?case by simp
next
  case (Cons ps pss img imgs)
  show ?case
  proof (cases "pss = []")
    case True
    with Cons have "imgs = []" by simp
    with True holds_raster[OF Cons(1)] show ?thesis by auto
  next
    case False
    with Cons(4) have full: "length ps = ceil_sqrt (length ps) * ceil_sqrt (length ps)"
      and rest: "\<forall>ps\<in>set (butlast pss). length ps = ceil_sqrt (length ps) * ceil_sqrt (length ps)"
      by simp_all
    from Cons(3)[OF rest] obtain pad
      where "concat (map raster imgs) = map to_u8 (concat pss) @ pad" by blast
    with holds_raster_full[OF Cons(1) full] show ?thesis by simp
  qed
qed

lemma concat_chunks:
  "concat (map (\<lambda>j. take M (drop (j * M) xs)) [0..<n]) = take (n * M) xs"
proof (induction n)
  case 0
  then show ?case by simp
next
  case (Suc n)
  have "take (n * M) xs @ take M (drop (n * M) xs) = take (n * M + M) xs"
    by (simp only: take_add)
  with Suc show ?case by (simp add: add.commute)
qed

lemma num_images_covers:
  assumes "0 < M"
  shows "total_pixels_needed h \<le> num_images M h * M"
  using ceil_div_less_iff[OF assms, of "num_images M h" "total_pixels_needed h"]
  by (simp add: num_images_def not_less)

lemma concat_image_pixel_lists:
  assumes "5 \<le> M"
  shows "concat (image_pixel_lists M file) = all_pixels file"
proof -
  have "length (all_pixels file) \<le> num_images M (calc_header (length file)) * M"
    using assms num_images_covers[of M] by (simp add: length_all_pixels)
  then show ?thesis
    by (simp add: image_pixel_lists_chunks[OF assms] concat_chunks)
qed

lemma butlast_upt_0: "butlast [0..<n] = [0..<n - 1]"
  by (cases n) simp_all

lemma butlast_image_pixel_lists:
  assumes "5 \<le> M" and "ps \<in> set (butlast (image_pixel_lists M file))"
  shows "length ps = M"
proof -
  let ?n = "num_images M (calc_header (length file))"
  let ?P = "all_pixels file"
  have "butlast (image_pixel_lists M file) = map (\<lambda>j. take M (drop (j * M) ?P)) [0..<?n - 1]"
    by (simp add: image_pixel_lists_chunks[OF assms(1)] map_butlast[symmetric] butlast_upt_0)
  with assms(2) obtain j where j: "j < ?n - 1" and ps: "ps = take M (drop (j * M) ?P)"
    by auto
  from j have "Suc j < ?n" by simp
  then have "Suc j * M < length ?P"
    using assms(1) ceil_div_less_iff[of M "Suc j" "total_pixels_needed (calc_header (length file))"]
    by (simp add: num_images_def length_all_pixels)
  then show ?thesis by (simp add: ps)
qed

lemma num_images_pos:
  assumes "0 < M"
  shows "0 < num_images M h"
  using ceil_div_less_iff[OF assms, of 0 "total_pixels_needed h"]
  by (simp add: num_images_def total_pixels_needed_def)

lemma hd_image_pixel_lists:
  assumes "5 \<le> M"
  shows "\<exists>rest. image_pixel_lists M file = take M (all_pixels file) # rest"
proof -
  have "0 < num_images M (calc_header (length file))"
    using assms by (intro num_images_pos) simp
  then have "[0..<num_images M (calc_header (length file))]
      = 0 # [Suc 0..<num_images M (calc_header (length file))]"
    by (rule upt_conv_Cons)
  then show ?thesis
    by (simp add: image_pixel_lists_chunks[OF assms])
qed

lemma extra_bits_calc_le: "extra_bits (calc_header n) \<le> 16"
proof -
  have "n mod 3 \<le> 2" by arith
  then show ?thesis by (simp add: extra_bits_calc)
qed

lemma header_record_eq:
  "\<lparr>complete_pixels = complete_pixels h, extra_bits = extra_bits h\<rparr> = (h :: header_record)"
  by simp

lemma decrypt_variant:
  assumes sq: "M = s * s" and M5: "5 \<le> M"
    and var: "list_all2 holds_pixels (image_pixel_lists M file) series"
    and cap: "length file div 3 < 2 ^ 96"
  shows "decrypt_single_file series None = (Inr True, Some file)"
proof -
  let ?h = "calc_header (length file)"
  let ?P = "all_pixels file"
  let ?hdr = "create_header_pixels (complete_pixels ?h) (extra_bits ?h)"
  let ?init = "\<lparr>bytes_written = 0, out_file = []\<rparr>"
  have P: "?P = ?hdr @ bytes_to_pixels file" by (simp add: all_pixels_def Let_def)
  have lenh: "length ?hdr = 5" by (rule length_create_header_pixels)
  obtain pss where pss: "image_pixel_lists M file = take M ?P # pss"
    using hd_image_pixel_lists[OF M5] by blast
  with var obtain first rest where series: "series = first # rest"
    and first: "holds_pixels (take M ?P) first"
    by (auto simp: list_all2_Cons1)
  have len0: "5 \<le> length (take M ?P)" using M5 lenh by (simp add: P)
  have side: "3 \<le> ceil_sqrt (length (take M ?P))" using len0 by (rule ceil_sqrt_ge3)
  have hw: "height first = ceil_sqrt (length (take M ?P))" "width first = ceil_sqrt (length (take M ?P))"
    using first by (simp_all add: holds_pixels_def)
  have "4 div width first \<le> 4 div 3"
    using side hw by (intro div_le_mono2) simp_all
  then have rd: "header_readable first"
    using side hw by (simp add: header_readable_def)
  have hcells: "\<forall>i<5. raster_cell first i = to_u8 (?hdr ! i)"
  proof (intro allI impI)
    fix i :: nat assume i: "i < 5"
    then have "raster_cell first i = to_u8 (take M ?P ! i)"
      using first len0 by (simp add: holds_pixels_def)
    also have "take M ?P ! i = ?hdr ! i"
      using i M5 lenh by (simp add: P nth_append)
    finally show "raster_cell first i = to_u8 (?hdr ! i)" .
  qed
  have "parse_header first
      = Inr \<lparr>complete_pixels = complete_pixels ?h, extra_bits = extra_bits ?h\<rparr>"
    using rd hcells
  proof (rule parse_header_of_header)
    show "complete_pixels ?h < 2 ^ 96" using cap by (simp add: complete_pixels_calc)
    show "extra_bits ?h < 256" using extra_bits_calc_le[of "length file"] by simp
  qed
  then have ph: "parse_header first = Inr ?h" by (simp only: header_record_eq)
  have eb24: "extra_bits ?h \<le> 24" using extra_bits_calc_le[of "length file"] by simp
  have st0: "settled ?h ?init" by (simp add: settled_def)
  have loop: "images_loop ?h 1 series ?init = feed ?h (series_payload 1 series) ?init"
    using eb24 st0 by (rule images_loop_feed)
  have full: "\<forall>ps\<in>set (butlast (image_pixel_lists M file)).
      length ps = ceil_sqrt (length ps) * ceil_sqrt (length ps)"
    using butlast_image_pixel_lists[OF M5] by (simp add: sq ceil_sqrt_square)
  obtain pad where "concat (map raster series) = map to_u8 (concat (image_pixel_lists M file)) @ pad"
    using series_raster[OF var full] by blast
  then have rs: "concat (map raster series) = map to_u8 ?hdr @ map to_u8 (bytes_to_pixels file) @ pad"
    by (simp add: concat_image_pixel_lists[OF M5] P)
  have "length (take M ?P) \<le> length (raster first)"
    using ceil_sqrt_ge[of "length (take M ?P)"] by (simp add: raster_def hw)
  with len0 have "5 \<le> length (raster first)" by (rule order_trans)
  then have "drop 5 (concat (map raster series)) = drop 5 (raster first) @ concat (map raster rest)"
    by (simp add: series)
  moreover have "series_payload 1 series = drop 5 (raster first) @ concat (map raster rest)"
    unfolding series by (rule series_payload_first)
  ultimately have "series_payload 1 series = drop 5 (concat (map raster series))"
    by simp
  then have pay: "series_payload 1 series = map to_u8 (bytes_to_pixels file) @ pad"
    using lenh by (simp add: rs)
  have fd: "feed ?h (map to_u8 (bytes_to_pixels file) @ pad) ?init
      = \<lparr>bytes_written = length file, out_file = file\<rparr>"
    using feed_file[of "[]" ?h "file" pad] by simp
  have res: "images_loop ?h 1 series ?init = \<lparr>bytes_written = length file, out_file = file\<rparr>"
    unfolding loop pay by (rule fd)
  have "decrypt_single_file series None
      = (Inr True, Some (out_file (images_loop ?h 1 series ?init)))"
    by (simp add: decrypt_single_file_def series ph)
  then show ?thesis
    unfolding res by simp
qed

subsection \<open>Bounds on what the decoder writes\<close>













subsection \<open>Round trip and header invariant\<close>



lemma max_pixels_square: "max_pixels_per_image = 10000 * 10000" "5 \<le> max_pixels_per_image"
  by (simp_all add: max_pixels_per_image_def)

lemma encrypt_file_series:
  "\<exists>series. encrypt_file file = Inr series
     \<and> list_all2 holds_pixels (image_pixel_lists max_pixels_per_image file) series"
  using layout_all_holds[of "image_pixel_lists max_pixels_per_image file"]
  by (simp add: encrypt_file_def encrypt_images_def)

lemma first_image_header:
  assumes M5: "5 \<le> M"
    and var: "list_all2 holds_pixels (image_pixel_lists M file) series"
  shows "\<exists>first rest. series = first # rest \<and> header_readable first
     \<and> holds_pixels (take M (all_pixels file)) first
     \<and> (\<forall>i<5. raster_cell first i
           = to_u8 (create_header_pixels (complete_pixels (calc_header (length file)))
                      (extra_bits (calc_header (length file))) ! i))"
proof -
  let ?h = "calc_header (length file)"
  let ?P = "all_pixels file"
  let ?hdr = "create_header_pixels (complete_pixels ?h) (extra_bits ?h)"
  have P: "?P = ?hdr @ bytes_to_pixels file" by (simp add: all_pixels_def Let_def)
  have lenh: "length ?hdr = 5" by (rule length_create_header_pixels)
  obtain pss where pss: "image_pixel_lists M file = take M ?P # pss"
    using hd_image_pixel_lists[OF M5] by blast
  with var obtain first rest where series: "series = first # rest"
    and first: "holds_pixels (take M ?P) first"
    by (auto simp: list_all2_Cons1)
  have len0: "5 \<le> length (take M ?P)" using M5 lenh by (simp add: P)
  have side: "3 \<le> ceil_sqrt (length (take M ?P))" using len0 by (rule ceil_sqrt_ge3)
  have hw: "height first = ceil_sqrt (length (take M ?P))" "width first = ceil_sqrt (length (take M ?P))"
    using first by (simp_all add: holds_pixels_def)
  have "4 div width first \<le> 4 div 3"
    using side hw by (intro div_le_mono2) simp_all
  then have rd: "header_readable first"
    using side hw by (simp add: header_readable_def)
  have hcells: "\<forall>i<5. raster_cell first i = to_u8 (?hdr ! i)"
  proof (intro allI impI)
    fix i :: nat assume i: "i < 5"
    then have "raster_cell first i = to_u8 (take M ?P ! i)"
      using first len0 by (simp add: holds_pixels_def)
    also have "take M ?P ! i = ?hdr ! i"
      using i M5 lenh by (simp add: P nth_append)
    finally show "raster_cell first i = to_u8 (?hdr ! i)" .
  qed
  from series rd first hcells show ?thesis by blast
qed

lemma parse_header_extra_bits:
  assumes "header_readable img" and "raster_cell img 4 = to_u8 (create_header_pixels cp eb ! 4)"
    and "eb < 256"
  shows "\<exists>h. parse_header img = Inr h \<and> extra_bits h = eb"
proof -
  have "unat (of_nat eb :: byte) = eb"
    using assms(3) by (simp add: unat_of_nat take_bit_eq_mod)
  then show ?thesis
    by (simp add: parse_header_readable[OF assms(1)] assms(2) create_header_pixels_eq to_u8_def)
qed



text \<open>
  Claim C4. The encoder's \<open>extra_bits\<close> is \<open>(file_size * 8) mod 24\<close> and lies in \<open>{0, 8, 16}\<close>,
  and the header of the series it writes decodes to that same value.
\<close>

theorem extra_bits_invariant:
  "extra_bits (calc_header (length file)) = (length file * 8) mod 24
   \<and> extra_bits (calc_header (length file)) \<in> {0, 8, 16}
   \<and> (\<exists>first rest h. encrypt_file file = Inr (first # rest) \<and> parse_header first = Inr h
         \<and> extra_bits h = (length file * 8) mod 24 \<and> extra_bits h \<in> {0, 8, 16})"
proof -
  let ?h = "calc_header (length file)"
  have eq: "extra_bits ?h = (length file * 8) mod 24"
    by (simp add: calc_header_def Let_def)
  have "length file mod 3 = 0 \<or> length file mod 3 = 1 \<or> length file mod 3 = 2" by arith
  then have mem: "extra_bits ?h \<in> {0, 8, 16}"
    by (auto simp: extra_bits_calc)
  then have small: "extra_bits ?h < 256" by auto
  obtain series where enc: "encrypt_file file = Inr series"
    and var: "list_all2 holds_pixels (image_pixel_lists max_pixels_per_image file) series"
    using encrypt_file_series by blast
  obtain first rest where series: "series = first # rest" and rd: "header_readable first"
    and cells: "\<forall>i<5. raster_cell first i
           = to_u8 (create_header_pixels (complete_pixels ?h) (extra_bits ?h) ! i)"
    using first_image_header[OF max_pixels_square(2) var] by blast
  from cells have "raster_cell first 4
      = to_u8 (create_header_pixels (complete_pixels ?h) (extra_bits ?h) ! 4)"
    by simp
  with rd obtain h where "parse_header first = Inr h" "extra_bits h = extra_bits ?h"
    using small parse_header_extra_bits by blast
  with enc series eq mem show ?thesis by auto
qed

subsection \<open>The partition into images\<close>




subsection \<open>The two-byte file and the padding\<close>

lemma two_bytes_pixel_lists:
  "image_pixel_lists max_pixels_per_image [0xAB, 0xCD]
     = [[(0, 0, 0), (0, 0, 0), (0, 0, 0), (0, 0, 0), (0, 0, 16), (0xAB, 0xCD, 0)]]"
proof -
  let ?file = "[0xAB, 0xCD :: byte]"
  have len: "length ?file = 2" by simp
  have cp: "complete_pixels (calc_header 2) = 0" and eb: "extra_bits (calc_header 2) = 16"
    by (simp_all add: calc_header_def)
  have n: "num_images max_pixels_per_image (calc_header 2) = Suc 0"
    by (simp add: num_images_def ceil_div_def total_pixels_needed_def data_pixels_def
        max_pixels_per_image_def cp eb)
  have P: "all_pixels ?file
      = [(0, 0, 0), (0, 0, 0), (0, 0, 0), (0, 0, 0), (0, 0, 16), (0xAB, 0xCD, 0)]"
    unfolding all_pixels_def Let_def len cp eb
    by (simp add: create_header_pixels_eq hbyte_def)
  show ?thesis
    unfolding image_pixel_lists_chunks[OF max_pixels_square(2)] len n P
    by (simp add: max_pixels_per_image_def)
qed

text \<open>
  Claim C7. The file \<open>[0xAB, 0xCD]\<close> has no complete pixel and 16 extra bits; its series is one
  image of side 3 whose raster cell 4 is the header pixel \<open>(0, 0, 16)\<close> and whose cell 5, the only
  payload pixel, is \<open>(0xAB, 0xCD, 0)\<close>; decoding the series writes exactly \<open>[0xAB, 0xCD]\<close>.
\<close>

theorem two_byte_scenario:
  "calc_header (length [0xAB, 0xCD :: byte]) = \<lparr>complete_pixels = 0, extra_bits = 16\<rparr>
   \<and> image_pixel_lists max_pixels_per_image [0xAB, 0xCD]
       = [[(0, 0, 0), (0, 0, 0), (0, 0, 0), (0, 0, 0), (0, 0, 16), (0xAB, 0xCD, 0)]]
   \<and> (\<exists>img. encrypt_file [0xAB, 0xCD] = Inr [img]
         \<and> height img = 3 \<and> width img = 3
         \<and> raster_cell img 4 = (0, 0, 16) \<and> raster_cell img 5 = (0xAB, 0xCD, 0)
         \<and> decrypt_single_file [img] None = (Inr True, Some [0xAB, 0xCD]))"
proof -
  let ?file = "[0xAB, 0xCD :: byte]"
  let ?ps = "[(0, 0, 0), (0, 0, 0), (0, 0, 0), (0, 0, 0), (0, 0, 16), (0xAB, 0xCD, 0) :: py_pixel]"
  have h: "calc_header (length ?file) = \<lparr>complete_pixels = 0, extra_bits = 16\<rparr>"
    by (simp add: calc_header_def)
  obtain series where enc: "encrypt_file ?file = Inr series"
    and var: "list_all2 holds_pixels (image_pixel_lists max_pixels_per_image ?file) series"
    using encrypt_file_series by blast
  from var obtain img where series: "series = [img]" and holds: "holds_pixels ?ps img"
    unfolding two_bytes_pixel_lists by (auto simp: list_all2_Cons1)
  have len: "length ?ps = 6" by simp
  have "ceil_sqrt 6 \<le> 3" by (rule ceil_sqrt_least) simp
  moreover have "3 \<le> ceil_sqrt 6" by (rule ceil_sqrt_ge3) simp
  ultimately have side: "ceil_sqrt 6 = 3" by simp
  from holds have hw: "height img = 3" "width img = 3"
    and all: "\<forall>i<6. raster_cell img i = to_u8 (?ps ! i)"
    unfolding holds_pixels_def len side by blast+
  from all have "raster_cell img 4 = to_u8 (?ps ! 4)" "raster_cell img 5 = to_u8 (?ps ! 5)"
    by simp_all
  then have cells: "raster_cell img 4 = (0, 0, 16)" "raster_cell img 5 = (0xAB, 0xCD, 0)"
    by (simp_all add: to_u8_def)
  have "length ?file div 3 < 2 ^ 96" by simp
  with max_pixels_square var have "decrypt_single_file series None = (Inr True, Some ?file)"
    by (rule decrypt_variant)
  with enc series hw cells h two_bytes_pixel_lists show ?thesis by simp
qed

subsection \<open>Shortfall, overwrite and the output cap\<close>









text \<open>
  Claim C8, as the code has it. When the destination file exists, \<^verbatim>\<open>decrypt_single_file\<close> never
  opens or writes it: the file is the same afterwards in every run. The existence check comes
  after the header read, so the run returns the skipped result \<open>False\<close> when the series is not
  empty and the five header positions lie inside its first image; otherwise the header read
  raises its error first.
\<close>

theorem overwrite_skip:
  "snd (decrypt_single_file series (Some old)) = Some old
   \<and> (series \<noteq> [] \<and> header_readable (hd series)
        \<longrightarrow> decrypt_single_file series (Some old) = (Inr False, Some old))
   \<and> (series = [] \<or> \<not> header_readable (hd series)
        \<longrightarrow> (\<exists>e. decrypt_single_file series (Some old) = (Inl e, Some old)))"
proof (cases series)
  case Nil
  then show ?thesis by (simp add: decrypt_single_file_def)
next
  case (Cons first rest)
  show ?thesis
  proof (cases "header_readable first")
    case True
    then show ?thesis
      by (simp add: Cons decrypt_single_file_def parse_header_readable)
  next
    case False
    then obtain e where "parse_header first = Inl e"
      using parse_header_unreadable by blast
    with False show ?thesis
      by (simp add: Cons decrypt_single_file_def)
  qed
qed

text \<open>
  An existing file of three bytes, with an all-white 3 x 3 image (skipped) and with an
  all-white image of one pixel (the header read raises).
\<close>

theorem overwrite_skip_witness:
  "[np_full 3] \<noteq> [] \<and> header_readable (hd [np_full 3])
   \<and> decrypt_single_file [np_full 3] (Some [1, 2, 3]) = (Inr False, Some [1, 2, 3])
   \<and> \<not> header_readable (hd [np_full 1])
   \<and> (\<exists>e. decrypt_single_file [np_full 1] (Some [1, 2, 3]) = (Inl e, Some [1, 2, 3]))"
proof -
  have "[np_full 3] \<noteq> [] \<and> header_readable (hd [np_full 3])"
    by (simp add: header_readable_def np_full_def)
  moreover have "\<not> header_readable (hd [np_full 1])"
    by (simp add: header_readable_def np_full_def)
  ultimately show ?thesis
    using overwrite_skip [of "[np_full 3]" "[1, 2, 3]"] overwrite_skip [of "[np_full 1]" "[1, 2, 3]"]
    by blast
qed

text \<open>
  The claim as stated fails: with a first image of one pixel the header read raises
  IndexError before the existence check, and the run is not reported as skipped.
\<close>

theorem overwrite_skip_counterexample:
  "decrypt_single_file [np_full 1] (Some [1, 2, 3]) = (Inl IndexError, Some [1, 2, 3])
   \<and> fst (decrypt_single_file [np_full 1] (Some [1, 2, 3])) \<noteq> Inr False"
  by code_simp



subsection \<open>Padding\<close>





subsection \<open>The array store\<close>

text \<open>Every channel the encoder stores into an array is an 8-bit value.\<close>

lemma encoder_pixels_in_range:
  assumes "image_pixels \<in> set (image_pixel_lists max_pixels_per_image file)"
    and "(r, g, b) \<in> set image_pixels"
  shows "r < 256 \<and> g < 256 \<and> b < 256"
proof -
  have hb: "hbyte cp j < 256" for cp j by (simp add: hbyte_def)
  have b2p: "r < 256 \<and> g < 256 \<and> b < 256" if "(r, g, b) \<in> set (bytes_to_pixels bs)" for bs
    using that
  proof (induction bs rule: bytes_to_pixels.induct)
    case (1 r' g' b' rest)
    then show ?case
      using unsigned_less[of r', where 'a = nat] unsigned_less[of g', where 'a = nat]
        unsigned_less[of b', where 'a = nat] by auto
  next
    case (2 r' g')
    then show ?case
      using unsigned_less[of r', where 'a = nat] unsigned_less[of g', where 'a = nat] by auto
  next
    case (3 r')
    then show ?case using unsigned_less[of r', where 'a = nat] by auto
  next
    case 4
    then show ?case by simp
  qed
  have "extra_bits (calc_header (length file)) < 256"
    using extra_bits_calc_le[of "length file"] by simp
  then have all: "r < 256 \<and> g < 256 \<and> b < 256" if "(r, g, b) \<in> set (all_pixels file)"
    using that hb b2p by (auto simp: all_pixels_def Let_def create_header_pixels_eq)
  from assms(1) obtain j where "image_pixels = take max_pixels_per_image
      (drop (j * max_pixels_per_image) (all_pixels file))"
    by (auto simp: image_pixel_lists_chunks[OF max_pixels_square(2)])
  with assms(2) have "(r, g, b) \<in> set (all_pixels file)"
    by (auto dest!: in_set_takeD in_set_dropD)
  then show ?thesis by (rule all)
qed

end
